theory Spec2Isabelle
  imports Complex_Main "HOL-Library.Sublist"
begin

section \<open>Values shared by the assertion package\<close>

text \<open>
  Python \<open>str\<close> values are modelled as \<^typ>\<open>string\<close>; a literal outside ASCII is the list
  of its UTF-8 bytes. Python floats (difference scores, thresholds, durations) are modelled
  as \<^typ>\<open>real\<close>, so \<open>nan\<close> and rounding are outside the model. Exceptions are values:
  a function that can raise returns \<open>exn + 'a\<close>, with \<open>Inl\<close> the exception. Only instances
  of Python's \<open>Exception\<close> are modelled (no \<open>KeyboardInterrupt\<close> or \<open>SystemExit\<close>).
\<close>

datatype exn =
    KeyError string
  | IndexError string
  | ValueError string
  | Exception string

text \<open>An exception carries the text that \<open>str(e)\<close> gives: its message, and for the
  \<open>KeyError\<close> of a subscript the repr of the key. \<open>str_exn\<close> is \<open>str(e)\<close>.\<close>

fun str_exn :: "exn \<Rightarrow> string" where
  "str_exn (KeyError m) = m"
| "str_exn (IndexError m) = m"
| "str_exn (ValueError m) = m"
| "str_exn (Exception m) = m"

text \<open>\<open>xs[i]\<close> on a Python list: a negative index counts from the end, an index out of
  range raises \<open>IndexError\<close>.\<close>

definition py_getitem :: "'a list \<Rightarrow> int \<Rightarrow> exn + 'a" where
  "py_getitem items index =
     (if index < - int (length items) \<or> int (length items) \<le> index
        then Inl (IndexError ''list index out of range'')
      else if index < 0
        then Inr (items ! nat (index + int (length items)))
      else Inr (items ! nat index))"

section \<open>ocr_engine.py\<close>

text \<open>
  \<open>OCREngine\<close> is a class whose \<open>contains_text\<close> and \<open>not_contains_text\<close> reach the
  recogniser through \<open>self.extract_text\<close>, so the method is a field of the record: a
  subclass or a replacement engine supplies another function, which may raise.
\<close>

record OCREngine =
  device_id :: "string option"
  extract_text :: "string \<Rightarrow> exn + string list"

text \<open>\<open>OCREngine.extract_text\<close> as the source has it: the body is a placeholder that
  returns the empty list for every image.\<close>

definition OCREngine_extract_text :: "string \<Rightarrow> exn + string list" where
  "OCREngine_extract_text image_base64 = Inr []"

text \<open>\<open>OCREngine(device_id)\<close>, the constructor.\<close>

definition OCREngine_init :: "string option \<Rightarrow> OCREngine" where
  "OCREngine_init dev = \<lparr> device_id = dev, extract_text = OCREngine_extract_text \<rparr>"

text \<open>\<open>any(target_text in text for text in texts)\<close>: \<open>in\<close> on two strings is the
  contiguous-substring test, \<^const>\<open>sublist\<close>.\<close>

definition contains_text :: "OCREngine \<Rightarrow> string \<Rightarrow> string \<Rightarrow> exn + bool" where
  "contains_text eng image_base64 target_text =
     (case extract_text eng image_base64 of
        Inl e \<Rightarrow> Inl e
      | Inr texts \<Rightarrow> Inr (list_ex (\<lambda>text. sublist target_text text) texts))"

definition not_contains_text :: "OCREngine \<Rightarrow> string \<Rightarrow> string \<Rightarrow> exn + bool" where
  "not_contains_text eng image_base64 target_text =
     (case contains_text eng image_base64 target_text of
        Inl e \<Rightarrow> Inl e
      | Inr b \<Rightarrow> Inr (\<not> b))"

section \<open>image_diff.py\<close>

text \<open>
  \<open>calculate_diff\<close> works through \<open>base64\<close>, PIL and numpy, which are libraries outside the
  repository; the calls it makes are the fields of \<open>imaging\<close>, each of which may raise.
  \<open>mean_abs_diff a b\<close> stands for
  \<open>np.mean(np.abs(np.array(a).astype(float) - np.array(b).astype(float)))\<close>.
\<close>

record 'img imaging =
  b64decode :: "string \<Rightarrow> exn + string"
  Image_open :: "string \<Rightarrow> exn + 'img"
  img_size :: "'img \<Rightarrow> nat \<times> nat"
  img_resize :: "'img \<Rightarrow> nat \<times> nat \<Rightarrow> exn + 'img"
  mean_abs_diff :: "'img \<Rightarrow> 'img \<Rightarrow> exn + real"

record 'img ImageDiffChecker =
  threshold :: real
  lib :: "'img imaging"

definition ImageDiffChecker_init :: "'img imaging \<Rightarrow> real \<Rightarrow> 'img ImageDiffChecker" where
  "ImageDiffChecker_init l thr = \<lparr> threshold = thr, lib = l \<rparr>"

text \<open>The default threshold of the constructor.\<close>

definition default_threshold :: real where
  "default_threshold = 15 / 100"

text \<open>The body of the \<open>try\<close> block of \<open>calculate_diff\<close>, in the order of the source.\<close>

definition calculate_diff_try :: "'img ImageDiffChecker \<Rightarrow> string \<Rightarrow> string \<Rightarrow> exn + real" where
  "calculate_diff_try c image1_base64 image2_base64 =
     (case b64decode (lib c) image1_base64 of Inl e \<Rightarrow> Inl e | Inr img1_data \<Rightarrow>
      case b64decode (lib c) image2_base64 of Inl e \<Rightarrow> Inl e | Inr img2_data \<Rightarrow>
      case Image_open (lib c) img1_data of Inl e \<Rightarrow> Inl e | Inr img1 \<Rightarrow>
      case Image_open (lib c) img2_data of Inl e \<Rightarrow> Inl e | Inr img2 \<Rightarrow>
      case (if img_size (lib c) img1 \<noteq> img_size (lib c) img2
            then img_resize (lib c) img2 (img_size (lib c) img1)
            else Inr img2) of Inl e \<Rightarrow> Inl e | Inr img2' \<Rightarrow>
      case mean_abs_diff (lib c) img1 img2' of Inl e \<Rightarrow> Inl e | Inr m \<Rightarrow>
      (Inr (m / 255)))"

text \<open>What \<open>calculate_diff\<close> prints: the warning of its \<open>except\<close> branch, carrying
  \<open>str(e)\<close>.\<close>

datatype printed = DiffFailedWarning string

text \<open>\<open>calculate_diff\<close>: the value returned, paired with the lines printed. The
  \<open>except Exception\<close> branch prints the warning and returns \<open>0.0\<close>.\<close>

definition calculate_diff :: "'img ImageDiffChecker \<Rightarrow> string \<Rightarrow> string \<Rightarrow> real \<times> printed list" where
  "calculate_diff c image1_base64 image2_base64 =
     (case calculate_diff_try c image1_base64 image2_base64 of
        Inr diff_ratio \<Rightarrow> (diff_ratio, [])
      | Inl e \<Rightarrow> (0, [DiffFailedWarning (str_exn e)]))"

definition has_changed :: "'img ImageDiffChecker \<Rightarrow> string \<Rightarrow> string \<Rightarrow> bool" where
  "has_changed c image1_base64 image2_base64 =
     (let diff = fst (calculate_diff c image1_base64 image2_base64)
      in diff > threshold c)"

text \<open>The \<open>for\<close> loop of \<open>is_stable\<close> over the indices still to visit: each index reads
  \<open>recent_images[i-1]\<close> and \<open>recent_images[i]\<close>, and the first pair whose difference exceeds
  the threshold returns \<open>False\<close>.\<close>

fun is_stable_loop :: "'img ImageDiffChecker \<Rightarrow> string list \<Rightarrow> real \<Rightarrow> int list \<Rightarrow> exn + bool" where
  "is_stable_loop c recent_images stable_threshold [] = Inr True"
| "is_stable_loop c recent_images stable_threshold (i # rest) =
     (case py_getitem recent_images (i - 1) of Inl e \<Rightarrow> Inl e | Inr a \<Rightarrow>
      case py_getitem recent_images i of Inl e \<Rightarrow> Inl e | Inr b \<Rightarrow>
      (if fst (calculate_diff c a b) > stable_threshold then Inr False
       else is_stable_loop c recent_images stable_threshold rest))"

text \<open>\<open>is_stable\<close>: \<open>range(len(recent_images) - stable_frames + 1, len(recent_images))\<close>
  is the integer interval up to \<open>len - 1\<close>.\<close>

definition is_stable :: "'img ImageDiffChecker \<Rightarrow> string list \<Rightarrow> int \<Rightarrow> real \<Rightarrow> exn + bool" where
  "is_stable c recent_images stable_frames stable_threshold =
     (if int (length recent_images) < stable_frames then Inr False
      else is_stable_loop c recent_images stable_threshold
             [int (length recent_images) - stable_frames + 1 .. int (length recent_images) - 1])"

section \<open>assertion_watcher.py\<close>

record Assertion =
  a_type :: string
  a_value :: string
  a_timeout :: real

text \<open>
  The fields of an \<open>AssertionWatcher\<close>. \<open>screenshot_func\<close> reads the device, so it is not
  a field: what its successive calls do is an argument of \<open>watch\<close>.
\<close>

record 'img AssertionWatcher =
  ocr_engine :: OCREngine
  image_diff_checker :: "'img ImageDiffChecker"
  poll_interval :: real
  stable_frames :: int
  stable_threshold :: real
  running :: bool
  last_screenshot :: "string option"
  recent_screenshots :: "string list"

text \<open>\<open>__init__\<close>: an engine or checker that is not injected is constructed with its
  defaults (the checker over the installed libraries \<open>l\<close>).\<close>

definition AssertionWatcher_init ::
  "'img imaging \<Rightarrow> OCREngine option \<Rightarrow> 'img ImageDiffChecker option \<Rightarrow> real \<Rightarrow> int \<Rightarrow> real
     \<Rightarrow> 'img AssertionWatcher" where
  "AssertionWatcher_init l ocr chk poll frames thr =
     \<lparr> ocr_engine = (case ocr of None \<Rightarrow> OCREngine_init None | Some e \<Rightarrow> e),
       image_diff_checker = (case chk of None \<Rightarrow> ImageDiffChecker_init l default_threshold | Some c \<Rightarrow> c),
       poll_interval = poll,
       stable_frames = frames,
       stable_threshold = thr,
       running = False,
       last_screenshot = None,
       recent_screenshots = [] \<rparr>"

text \<open>\<open>AssertionWatcher(screenshot_func)\<close>, all defaults, as \<open>AssertionRunner\<close> calls it.\<close>

definition AssertionWatcher_default :: "'img imaging \<Rightarrow> 'img AssertionWatcher" where
  "AssertionWatcher_default l = AssertionWatcher_init l None None (1 / 2) 3 (5 / 100)"

text \<open>\<open>_is_screen_stable\<close>.\<close>

definition is_screen_stable :: "'img AssertionWatcher \<Rightarrow> exn + bool" where
  "is_screen_stable w =
     (if int (length (recent_screenshots w)) < stable_frames w then Inr False
      else is_stable (image_diff_checker w) (recent_screenshots w) (stable_frames w)
             (stable_threshold w))"

definition check_assertion :: "'img AssertionWatcher \<Rightarrow> Assertion \<Rightarrow> string \<Rightarrow> exn + bool" where
  "check_assertion w assertion current_screenshot =
     (case is_screen_stable w of Inl e \<Rightarrow> Inl e | Inr screen_stable \<Rightarrow>
      (if \<not> screen_stable then Inr False
       else if a_type assertion = ''text_exists''
         then contains_text (ocr_engine w) current_screenshot (a_value assertion)
       else if a_type assertion = ''text_not_exists''
         then not_contains_text (ocr_engine w) current_screenshot (a_value assertion)
       else if a_type assertion = ''image_changed''
         then (case last_screenshot w of
                 None \<Rightarrow> Inr False
               | Some previous \<Rightarrow>
                   Inr (has_changed (image_diff_checker w) previous current_screenshot))
       else Inr False))"

text \<open>The start of \<open>watch\<close>, before the loop: the running flag is set (and the start
  time read).\<close>

definition watch_start :: "'img AssertionWatcher \<Rightarrow> 'img AssertionWatcher" where
  "watch_start w = w\<lparr>running := True\<rparr>"

text \<open>Recording the current screenshot: \<open>append\<close>, then \<open>pop(0)\<close> when the list is longer
  than \<open>stable_frames\<close>. The list is not empty after the append, so \<open>pop(0)\<close> does not
  raise and leaves the tail.\<close>

definition push_screenshot :: "'img AssertionWatcher \<Rightarrow> string \<Rightarrow> 'img AssertionWatcher" where
  "push_screenshot w current_screenshot =
     (let appended = recent_screenshots w @ [current_screenshot]
      in w\<lparr>recent_screenshots :=
             (if int (length appended) > stable_frames w then tl appended else appended)\<rparr>)"

text \<open>The \<open>for assertion in assertions\<close> loop of one tick: the first assertion that
  \<open>check_assertion\<close> reports is returned, and the ones after it are not evaluated.\<close>

fun check_each :: "'img AssertionWatcher \<Rightarrow> Assertion list \<Rightarrow> string \<Rightarrow> exn + Assertion option" where
  "check_each w [] current_screenshot = Inr None"
| "check_each w (assertion # rest) current_screenshot =
     (case check_assertion w assertion current_screenshot of
        Inl e \<Rightarrow> Inl e
      | Inr hit \<Rightarrow> (if hit then Inr (Some assertion) else check_each w rest current_screenshot))"

text \<open>The message of a hit: the UTF-8 bytes of the source's prefix, then
  \<open>{assertion.type} = {assertion.value}\<close>.\<close>

definition hit_prefix :: string where
  "hit_prefix = [CHR 0xE6, CHR 0x96, CHR 0xAD, CHR 0xE8, CHR 0xA8, CHR 0x80, CHR 0xE5, CHR 0x91,
                 CHR 0xBD, CHR 0xE4, CHR 0xB8, CHR 0xAD, CHR 0x3A, CHR 0x20]"

definition hit_msg :: "Assertion \<Rightarrow> string" where
  "hit_msg assertion = hit_prefix @ a_type assertion @ '' = '' @ a_value assertion"

text \<open>\<open>time.sleep(secs)\<close> raises \<open>ValueError\<close> on a negative argument.\<close>

definition time_sleep :: "real \<Rightarrow> exn + unit" where
  "time_sleep secs =
     (if secs < 0 then Inl (ValueError ''sleep length must be non-negative'') else Inr ())"

text \<open>
  The \<open>while\<close> loop of \<open>watch\<close>. The clock and the \<open>stop()\<close> of another thread are not
  modelled: the loop is given the outcomes of the calls of \<open>screenshot_func\<close> in the
  iterations whose guard \<open>self._running and (time.time() - start_time) < timeout\<close> holds,
  in order, and the guard fails when they are used up. The result is what \<open>watch\<close> returns
  or raises, with the watcher as the call leaves it.
\<close>

fun watch_loop ::
  "'img AssertionWatcher \<Rightarrow> Assertion list \<Rightarrow> (exn + string) list
     \<Rightarrow> (exn + bool \<times> string option) \<times> 'img AssertionWatcher" where
  "watch_loop w assertions [] = (Inr (False, None), w\<lparr>running := False\<rparr>)"
| "watch_loop w assertions (capture # later) =
     (case capture of
        Inl e \<Rightarrow> (Inl e, w)
      | Inr current_screenshot \<Rightarrow>
          (let w1 = push_screenshot w current_screenshot in
           case check_each w1 assertions current_screenshot of
             Inl e \<Rightarrow> (Inl e, w1)
           | Inr (Some assertion) \<Rightarrow> (Inr (True, Some (hit_msg assertion)), w1\<lparr>running := False\<rparr>)
           | Inr None \<Rightarrow>
               (let w2 = w1\<lparr>last_screenshot := Some current_screenshot\<rparr> in
                case time_sleep (poll_interval w2) of
                  Inl e \<Rightarrow> (Inl e, w2)
                | Inr u \<Rightarrow> watch_loop w2 assertions later)))"

definition watch ::
  "'img AssertionWatcher \<Rightarrow> Assertion list \<Rightarrow> (exn + string) list
     \<Rightarrow> (exn + bool \<times> string option) \<times> 'img AssertionWatcher" where
  "watch w assertions captures = watch_loop (watch_start w) assertions captures"

text \<open>\<open>stop\<close>.\<close>

definition stop :: "'img AssertionWatcher \<Rightarrow> 'img AssertionWatcher" where
  "stop w = w\<lparr>running := False\<rparr>"

section \<open>runner.py\<close>

record AssertionResult =
  success :: bool
  message :: string
  elapsed_time :: real
  screenshot_path :: "string option"

text \<open>
  An entry of the \<open>assertions\<close> argument is a dict read at the keys \<open>type\<close>, \<open>value\<close> and
  \<open>timeout\<close>; it is modelled by what it holds at these three keys, \<open>None\<close> for a key that
  is absent, with values of the types the docstring gives.
\<close>

record assertion_dict =
  d_type :: "string option"
  d_value :: "string option"
  d_timeout :: "real option"

text \<open>\<open>Assertion(type=a["type"], value=a["value"], timeout=a.get("timeout", timeout))\<close>:
  subscripting at an absent key raises \<open>KeyError\<close>, whose text is the key between single
  quotes (the repr of these two keys), and \<open>get\<close> falls back on its default.\<close>

definition to_assertion :: "assertion_dict \<Rightarrow> real \<Rightarrow> exn + Assertion" where
  "to_assertion a timeout =
     (case d_type a of None \<Rightarrow> Inl (KeyError ([CHR 0x27] @ ''type'' @ [CHR 0x27])) | Some t \<Rightarrow>
      case d_value a of None \<Rightarrow> Inl (KeyError ([CHR 0x27] @ ''value'' @ [CHR 0x27])) | Some v \<Rightarrow>
      (Inr \<lparr> a_type = t, a_value = v,
             a_timeout = (case d_timeout a of None \<Rightarrow> timeout | Some x \<Rightarrow> x) \<rparr>))"

text \<open>The list comprehension building \<open>assertion_objects\<close>: the first dict that raises ends
  it.\<close>

fun assertion_objects :: "assertion_dict list \<Rightarrow> real \<Rightarrow> exn + Assertion list" where
  "assertion_objects [] timeout = Inr []"
| "assertion_objects (a # rest) timeout =
     (case to_assertion a timeout of Inl e \<Rightarrow> Inl e | Inr obj \<Rightarrow>
      case assertion_objects rest timeout of Inl e \<Rightarrow> Inl e | Inr objs \<Rightarrow>
      (Inr (obj # objs)))"

text \<open>
  The fields of an \<open>AssertionRunner\<close>. \<open>save_screenshot_func\<close> is optional; when present it
  writes a file and reads the device, so it is given as the outcome of its \<open>k\<close>-th call
  within one \<open>run_with_assertion\<close> (counting from 0): a path, \<open>None\<close>, or an exception.
\<close>

record ('img, 'r) AssertionRunner =
  save_screenshot_func :: "(nat \<Rightarrow> exn + string option) option"
  watcher :: "'img AssertionWatcher"
  agent_result :: "'r option"
  agent_error :: "exn option"

text \<open>\<open>AssertionRunner(agent, screenshot_func, save_screenshot_func)\<close>.\<close>

definition AssertionRunner_init ::
  "'img imaging \<Rightarrow> (nat \<Rightarrow> exn + string option) option \<Rightarrow> ('img, 'r) AssertionRunner" where
  "AssertionRunner_init l save =
     \<lparr> save_screenshot_func = save,
       watcher = AssertionWatcher_default l,
       agent_result = None,
       agent_error = None \<rparr>"

text \<open>
  What surrounds one call of \<open>run_with_assertion\<close>: the outcomes of \<open>screenshot_func\<close> in
  the ticks the watch loop runs, the reading \<open>time.time() - start_time\<close>, and what the
  agent thread has done with \<open>agent.run(prompt)\<close> by the time the call returns (\<open>None\<close> when
  it is still running).
\<close>

record 'r world =
  captures :: "(exn + string) list"
  clock_elapsed :: real
  agent_outcome :: "(exn + 'r) option"

text \<open>The thread body \<open>run_agent\<close> of \<open>_start_agent_async\<close>: the result or the error of the
  agent is stored in the runner, and nothing else reads it.\<close>

definition run_agent :: "('img, 'r) AssertionRunner \<Rightarrow> (exn + 'r) option \<Rightarrow> ('img, 'r) AssertionRunner" where
  "run_agent r outcome =
     (case outcome of
        None \<Rightarrow> r
      | Some (Inr res) \<Rightarrow> r\<lparr>agent_result := Some res\<rparr>
      | Some (Inl e) \<Rightarrow> r\<lparr>agent_error := Some e\<rparr>)"

text \<open>\<open>_stop_agent\<close>: the watcher is stopped; the agent has no stop interface.\<close>

definition stop_agent :: "('img, 'r) AssertionRunner \<Rightarrow> ('img, 'r) AssertionRunner" where
  "stop_agent r = r\<lparr>watcher := stop (watcher r)\<rparr>"

text \<open>The messages of a result, as UTF-8 bytes.\<close>

definition passed_msg :: string where
  "passed_msg = [CHR 0xE6, CHR 0x96, CHR 0xAD, CHR 0xE8, CHR 0xA8, CHR 0x80, CHR 0xE9, CHR 0x80,
                 CHR 0x9A, CHR 0xE8, CHR 0xBF, CHR 0x87]"

definition timeout_msg :: string where
  "timeout_msg = [CHR 0xE6, CHR 0x96, CHR 0xAD, CHR 0xE8, CHR 0xA8, CHR 0x80, CHR 0xE8, CHR 0xB6,
                  CHR 0x85, CHR 0xE6, CHR 0x97, CHR 0xB6, CHR 0xE6, CHR 0x9C, CHR 0xAA, CHR 0xE5,
                  CHR 0x91, CHR 0xBD, CHR 0xE4, CHR 0xB8, CHR 0xAD]"

definition exception_prefix :: string where
  "exception_prefix = [CHR 0xE6, CHR 0x96, CHR 0xAD, CHR 0xE8, CHR 0xA8, CHR 0x80, CHR 0xE6,
                       CHR 0x89, CHR 0xA7, CHR 0xE8, CHR 0xA1, CHR 0x8C, CHR 0xE5, CHR 0xBC,
                       CHR 0x82, CHR 0xE5, CHR 0xB8, CHR 0xB8, CHR 0x3A, CHR 0x20]"

text \<open>\<open>message or default\<close>: \<open>None\<close> and the empty string are falsy.\<close>

definition message_or :: "string option \<Rightarrow> string \<Rightarrow> string" where
  "message_or m dflt = (case m of None \<Rightarrow> dflt | Some s \<Rightarrow> (if s = [] then dflt else s))"

text \<open>
  The \<open>try\<close> block of \<open>run_with_assertion\<close>: the watch, \<open>_stop_agent\<close>, and the result of
  the hit or of the timeout. It returns what the block returns or raises, the runner, and
  the number of calls of \<open>save_screenshot_func\<close> made so far.
\<close>

definition run_try ::
  "('img, 'r) AssertionRunner \<Rightarrow> 'r world \<Rightarrow> Assertion list
     \<Rightarrow> (exn + AssertionResult) \<times> ('img, 'r) AssertionRunner \<times> nat" where
  "run_try r env objs =
     (case watch (watcher r) objs (captures env) of
        (Inl e, w') \<Rightarrow> (Inl e, r\<lparr>watcher := w'\<rparr>, 0)
      | (Inr (hit, msg), w') \<Rightarrow>
          (let r' = stop_agent (r\<lparr>watcher := w'\<rparr>) in
           if hit then
             (Inr \<lparr> success = True, message = message_or msg passed_msg,
                    elapsed_time = clock_elapsed env, screenshot_path = None \<rparr>, r', 0)
           else
             (case save_screenshot_func r of
                None \<Rightarrow>
                  (Inr \<lparr> success = False, message = timeout_msg,
                         elapsed_time = clock_elapsed env, screenshot_path = None \<rparr>, r', 0)
              | Some save \<Rightarrow>
                  (case save 0 of
                     Inl e \<Rightarrow> (Inl e, r', 1)
                   | Inr path \<Rightarrow>
                       (Inr \<lparr> success = False, message = timeout_msg,
                              elapsed_time = clock_elapsed env, screenshot_path = path \<rparr>, r', 1)))))"

text \<open>The \<open>except Exception as e\<close> block: \<open>_stop_agent\<close>, the optional screenshot (its
  call is not guarded, so its exception leaves \<open>run_with_assertion\<close>), the failed result.\<close>

definition run_except ::
  "('img, 'r) AssertionRunner \<Rightarrow> 'r world \<Rightarrow> exn \<Rightarrow> nat
     \<Rightarrow> (exn + AssertionResult) \<times> ('img, 'r) AssertionRunner" where
  "run_except r env e calls =
     (let r' = stop_agent r in
      case save_screenshot_func r of
        None \<Rightarrow>
          (Inr \<lparr> success = False, message = exception_prefix @ str_exn e,
                 elapsed_time = clock_elapsed env, screenshot_path = None \<rparr>, r')
      | Some save \<Rightarrow>
          (case save calls of
             Inl e' \<Rightarrow> (Inl e', r')
           | Inr path \<Rightarrow>
               (Inr \<lparr> success = False, message = exception_prefix @ str_exn e,
                      elapsed_time = clock_elapsed env, screenshot_path = path \<rparr>, r')))"

text \<open>
  \<open>run_with_assertion\<close>: the assertions are converted before the \<open>try\<close>, so a
  \<open>KeyError\<close> there leaves the function; then the agent thread is started, and the \<open>try\<close>
  and \<open>except\<close> blocks run. The runner returned carries what the agent thread stored.
\<close>

definition run_with_assertion ::
  "('img, 'r) AssertionRunner \<Rightarrow> 'r world \<Rightarrow> string \<Rightarrow> assertion_dict list \<Rightarrow> real
     \<Rightarrow> (exn + AssertionResult) \<times> ('img, 'r) AssertionRunner" where
  "run_with_assertion r env prompt assertions timeout =
     (case assertion_objects assertions timeout of
        Inl e \<Rightarrow> (Inl e, r)
      | Inr objs \<Rightarrow>
          (case run_try r env objs of
             (Inr res, r', calls) \<Rightarrow> (Inr res, run_agent r' (agent_outcome env))
           | (Inl e, r', calls) \<Rightarrow>
               (case run_except r' env e calls of
                  (out, r'') \<Rightarrow> (out, run_agent r'' (agent_outcome env)))))"

section \<open>The stability contract in the words of the specification\<close>

text \<open>The trailing \<open>stableFrames\<close> frames of a window, and the consecutive pairs of a
  sequence of frames.\<close>

definition trailing :: "int \<Rightarrow> 'a list \<Rightarrow> 'a list" where
  "trailing k xs = drop (length xs - nat k) xs"

definition consecutive_pairs :: "'a list \<Rightarrow> ('a \<times> 'a) list" where
  "consecutive_pairs xs = zip xs (tl xs)"

text \<open>\<open>isStable\<close> as the specification words it: the window holds at least \<open>stableFrames\<close>
  frames, and every consecutive pair of the trailing \<open>stableFrames\<close> frames has a difference
  score of at most \<open>stableThreshold\<close>.\<close>

definition isStable_spec :: "'img ImageDiffChecker \<Rightarrow> string list \<Rightarrow> int \<Rightarrow> real \<Rightarrow> bool" where
  "isStable_spec c window stableFrames stableThreshold =
     (stableFrames \<le> int (length window) \<and>
      list_all (\<lambda>(a, b). fst (calculate_diff c a b) \<le> stableThreshold)
        (consecutive_pairs (trailing stableFrames window)))"

section \<open>Concrete instances for the closed examples\<close>

text \<open>
  An imaging library over images that are their own bytes: decoding is the identity, the
  empty file is not an image, an image is one row of pixels, and the mean difference of
  two images is 0 when they are equal and 255 otherwise.
\<close>

definition bytes_imaging :: "string imaging" where
  "bytes_imaging =
     \<lparr> b64decode = Inr,
       Image_open = (\<lambda>data. if data = [] then Inl (Exception ''cannot identify image file'')
                              else Inr data),
       img_size = (\<lambda>img. (length img, 1)),
       img_resize = (\<lambda>img sz. Inr (take (fst sz) (img @ replicate (fst sz) (CHR 0x00)))),
       mean_abs_diff = (\<lambda>a b. Inr (if a = b then 0 else 255)) \<rparr>"

text \<open>A watcher with every default but a window of one frame, and one of two frames.\<close>

definition watcher1 :: "string AssertionWatcher" where
  "watcher1 = AssertionWatcher_init bytes_imaging None None (1 / 2) 1 (5 / 100)"

definition watcher2 :: "string AssertionWatcher" where
  "watcher2 = AssertionWatcher_init bytes_imaging None None (1 / 2) 2 (5 / 100)"

text \<open>An engine that reads every image as the one line \<open>Login OK\<close>.\<close>

definition fixed_ocr :: OCREngine where
  "fixed_ocr = \<lparr> device_id = None, extract_text = (\<lambda>image. Inr [''Login OK'']) \<rparr>"

definition text_exists :: "string \<Rightarrow> Assertion" where
  "text_exists v = \<lparr> a_type = ''text_exists'', a_value = v, a_timeout = 10 \<rparr>"

definition text_not_exists :: "string \<Rightarrow> Assertion" where
  "text_not_exists v = \<lparr> a_type = ''text_not_exists'', a_value = v, a_timeout = 10 \<rparr>"

definition image_changed :: Assertion where
  "image_changed = \<lparr> a_type = ''image_changed'', a_value = [], a_timeout = 10 \<rparr>"

text \<open>A runner whose \<open>save_screenshot_func\<close> raises on every call, and one whose function
  returns a path.\<close>

definition runner_failing_save :: "(string, string) AssertionRunner" where
  "runner_failing_save =
     AssertionRunner_init bytes_imaging (Some (\<lambda>k. Inl (Exception ''device offline'')))"

definition runner_saving :: "(string, string) AssertionRunner" where
  "runner_saving =
     AssertionRunner_init bytes_imaging (Some (\<lambda>k. Inr (Some ''failure.png'')))"

definition quiet_world :: "string world" where
  "quiet_world = \<lparr> captures = [], clock_elapsed = 10, agent_outcome = None \<rparr>"

text \<open>The one-frame watcher with the fixed engine, after its first frame.\<close>

definition watcher1_ocr :: "string AssertionWatcher" where
  "watcher1_ocr = push_screenshot (watcher1\<lparr>ocr_engine := fixed_ocr\<rparr>) ''a''"

definition ok_dict :: assertion_dict where
  "ok_dict = \<lparr> d_type = Some ''text_exists'', d_value = Some ''OK'', d_timeout = None \<rparr>"

text \<open>A call in which the watch loop runs one tick and the agent has finished.\<close>

definition one_tick_world :: "string world" where
  "one_tick_world = \<lparr> captures = [Inr ''a''], clock_elapsed = 1, agent_outcome = Some (Inr ''done'') \<rparr>"

section \<open>The stability detector\<close>

lemma py_getitem_in_range:
  "0 \<le> i \<Longrightarrow> i < int (length xs) \<Longrightarrow> py_getitem xs i = Inr (xs ! nat i)"
  by (simp add: py_getitem_def)

text \<open>Over indices inside the list the loop never raises, and it answers whether every
  visited pair is within the threshold.\<close>

lemma is_stable_loop_in_range:
  "\<forall>i\<in>set idxs. 1 \<le> i \<and> i < int (length imgs) \<Longrightarrow>
   is_stable_loop c imgs thr idxs =
     Inr (list_all (\<lambda>i. fst (calculate_diff c (imgs ! nat (i - 1)) (imgs ! nat i)) \<le> thr) idxs)"
proof (induction idxs)
  case Nil
  show ?case by simp
next
  case (Cons i rest)
  from Cons.prems have i: "1 \<le> i" "i < int (length imgs)" by simp_all
  from Cons.prems have rest: "\<forall>j\<in>set rest. 1 \<le> j \<and> j < int (length imgs)" by simp
  have a: "py_getitem imgs (i - 1) = Inr (imgs ! nat (i - 1))"
    using i by (intro py_getitem_in_range) simp_all
  have b: "py_getitem imgs i = Inr (imgs ! nat i)"
    using i by (intro py_getitem_in_range) simp_all
  show ?case using Cons.IH [OF rest] by (simp add: a b not_less)
qed

lemma is_stable_indices:
  "is_stable c imgs k thr =
     Inr (k \<le> int (length imgs) \<and>
          list_all (\<lambda>i. fst (calculate_diff c (imgs ! nat (i - 1)) (imgs ! nat i)) \<le> thr)
            [int (length imgs) - k + 1 .. int (length imgs) - 1])"
proof (cases "int (length imgs) < k")
  case True
  then show ?thesis by (simp add: is_stable_def)
next
  case False
  then have "\<forall>i\<in>set [int (length imgs) - k + 1 .. int (length imgs) - 1].
               1 \<le> i \<and> i < int (length imgs)"
    by auto
  from is_stable_loop_in_range [OF this] False show ?thesis
    by (simp add: is_stable_def)
qed

text \<open>The pairs the loop visits by index are the consecutive pairs of the trailing frames.\<close>

lemma pairs_by_index:
  assumes "k \<le> int (length imgs)"
  shows "list_all (\<lambda>(a, b). P a b) (consecutive_pairs (trailing k imgs)) =
         list_all (\<lambda>i. P (imgs ! nat (i - 1)) (imgs ! nat i))
           [int (length imgs) - k + 1 .. int (length imgs) - 1]"
proof -
  let ?n = "length imgs"
  let ?d = "?n - nat k"
  let ?tr = "drop ?d imgs"
  have L: "list_all (\<lambda>(a, b). P a b) (consecutive_pairs (trailing k imgs)) =
           (\<forall>j. Suc j < length ?tr \<longrightarrow> P (?tr ! j) (?tr ! Suc j))"
    by (auto simp: consecutive_pairs_def trailing_def list_all_length nth_tl)
  have R: "list_all (\<lambda>i. P (imgs ! nat (i - 1)) (imgs ! nat i)) [int ?n - k + 1 .. int ?n - 1] =
           (\<forall>i. int ?n - k + 1 \<le> i \<and> i \<le> int ?n - 1 \<longrightarrow> P (imgs ! nat (i - 1)) (imgs ! nat i))"
    by (auto simp: list_all_iff)
  have d: "int ?d = int ?n - (if k < 0 then 0 else k)" using assms by auto
  have "(\<forall>j. Suc j < length ?tr \<longrightarrow> P (?tr ! j) (?tr ! Suc j)) =
        (\<forall>i. int ?n - k + 1 \<le> i \<and> i \<le> int ?n - 1 \<longrightarrow> P (imgs ! nat (i - 1)) (imgs ! nat i))"
  proof (intro iffI allI impI)
    fix i assume H: "\<forall>j. Suc j < length ?tr \<longrightarrow> P (?tr ! j) (?tr ! Suc j)"
      and i: "int ?n - k + 1 \<le> i \<and> i \<le> int ?n - 1"
    define j where "j = nat (i - 1) - ?d"
    have j1: "Suc j < length ?tr" using i assms d by (auto simp: j_def)
    have e1: "?d + j = nat (i - 1)" using i assms d by (auto simp: j_def)
    have e2: "?d + Suc j = nat i" using i assms d by (auto simp: j_def)
    from H j1 have "P (?tr ! j) (?tr ! Suc j)" by blast
    then show "P (imgs ! nat (i - 1)) (imgs ! nat i)"
      using e1 e2 j1 by (simp add: nth_drop)
  next
    fix j assume H: "\<forall>i. int ?n - k + 1 \<le> i \<and> i \<le> int ?n - 1 \<longrightarrow> P (imgs ! nat (i - 1)) (imgs ! nat i)"
      and j: "Suc j < length ?tr"
    define i where "i = int ?d + int j + 1"
    have r: "int ?n - k + 1 \<le> i \<and> i \<le> int ?n - 1" using j d by (auto simp: i_def)
    have e1: "nat (i - 1) = ?d + j" by (simp add: i_def)
    have e2: "nat i = ?d + Suc j" by (simp add: i_def)
    from H r have "P (imgs ! nat (i - 1)) (imgs ! nat i)" by blast
    then show "P (?tr ! j) (?tr ! Suc j)"
      using e1 e2 j by (simp add: nth_drop)
  qed
  with L R show ?thesis by simp
qed

lemma is_stable_spec:
  "is_stable c window k thr = Inr (isStable_spec c window k thr)"
proof (cases "k \<le> int (length window)")
  case True
  from pairs_by_index [OF True, of "\<lambda>a b. fst (calculate_diff c a b) \<le> thr"]
  show ?thesis by (simp add: is_stable_indices isStable_spec_def)
next
  case False
  then show ?thesis by (simp add: is_stable_indices isStable_spec_def)
qed

lemma is_screen_stable_spec:
  "is_screen_stable w =
     Inr (isStable_spec (image_diff_checker w) (recent_screenshots w) (stable_frames w)
            (stable_threshold w))"
  by (simp add: is_screen_stable_def is_stable_spec isStable_spec_def)

text \<open>
  Claim C3. \<open>is_stable\<close> never raises and returns exactly what the specification's
  \<open>isStable\<close> says: false for a window shorter than \<open>stableFrames\<close>, and otherwise true if
  and only if every consecutive pair of the trailing \<open>stableFrames\<close> frames has a difference
  score of at most \<open>stableThreshold\<close>. The watcher's \<open>_is_screen_stable\<close> returns the same
  on its own window.
\<close>

theorem is_stable_iff_trailing_pairs_within_threshold:
  "is_stable c window stableFrames stableThreshold =
     Inr (stableFrames \<le> int (length window) \<and>
          list_all (\<lambda>(a, b). fst (calculate_diff c a b) \<le> stableThreshold)
            (consecutive_pairs (trailing stableFrames window)))
   \<and> is_screen_stable w =
       is_stable (image_diff_checker w) (recent_screenshots w) (stable_frames w)
         (stable_threshold w)"
  by (simp add: is_stable_spec is_screen_stable_spec isStable_spec_def)

section \<open>The assertion evaluator\<close>

lemma not_contains_text_negates:
  "not_contains_text eng img v = map_sum (\<lambda>e. e) Not (contains_text eng img v)"
  by (simp add: not_contains_text_def split: sum.splits)

lemma check_assertion_stable:
  "is_screen_stable w = Inr True \<Longrightarrow>
   check_assertion w a cur =
     (if a_type a = ''text_exists'' then contains_text (ocr_engine w) cur (a_value a)
      else if a_type a = ''text_not_exists'' then not_contains_text (ocr_engine w) cur (a_value a)
      else if a_type a = ''image_changed''
        then (case last_screenshot w of None \<Rightarrow> Inr False
              | Some previous \<Rightarrow> Inr (has_changed (image_diff_checker w) previous cur))
      else Inr False)"
  by (simp add: check_assertion_def)

text \<open>
  Claim C6. For every engine, frame and value, \<open>not_contains_text\<close> returns the negation of
  what \<open>contains_text\<close> returns on the same frame (and raises when it raises); an empty
  OCR result therefore satisfies it for every value. Through \<open>check_assertion\<close>, on a
  stable screen, a \<open>text_not_exists\<close> assertion evaluates to the negation of the
  \<open>text_exists\<close> assertion with the same value.
\<close>

theorem text_not_exists_negates_text_exists:
  "not_contains_text eng img v = map_sum (\<lambda>e. e) Not (contains_text eng img v)
   \<and> (extract_text eng img = Inr [] \<longrightarrow> not_contains_text eng img v = Inr True)
   \<and> (is_screen_stable w = Inr True \<longrightarrow>
        check_assertion w \<lparr>a_type = ''text_not_exists'', a_value = v, a_timeout = t\<rparr> img =
          map_sum (\<lambda>e. e) Not
            (check_assertion w \<lparr>a_type = ''text_exists'', a_value = v, a_timeout = t\<rparr> img))"
  by (simp add: not_contains_text_negates check_assertion_stable)
     (simp add: not_contains_text_def contains_text_def)

lemma push_screenshot_fields:
  "ocr_engine (push_screenshot w x) = ocr_engine w"
  "image_diff_checker (push_screenshot w x) = image_diff_checker w"
  "poll_interval (push_screenshot w x) = poll_interval w"
  "stable_frames (push_screenshot w x) = stable_frames w"
  "stable_threshold (push_screenshot w x) = stable_threshold w"
  "running (push_screenshot w x) = running w"
  "last_screenshot (push_screenshot w x) = last_screenshot w"
  by (simp_all add: push_screenshot_def Let_def)

lemma watcher1_ocr_stable: "is_screen_stable watcher1_ocr = Inr True"
  by (simp add: watcher1_ocr_def watcher1_def AssertionWatcher_init_def push_screenshot_def
      is_screen_stable_def is_stable_def Let_def)

text \<open>The claim at the fixed engine, whose one line contains \<open>OK\<close>.\<close>

theorem text_not_exists_negates_text_exists_witness:
  "extract_text (OCREngine_init None) ''a'' = Inr []
   \<and> not_contains_text (OCREngine_init None) ''a'' ''OK'' = Inr True
   \<and> is_screen_stable watcher1_ocr = Inr True
   \<and> check_assertion watcher1_ocr \<lparr>a_type = ''text_exists'', a_value = ''OK'', a_timeout = 5\<rparr> ''a'' = Inr True
   \<and> check_assertion watcher1_ocr \<lparr>a_type = ''text_not_exists'', a_value = ''OK'', a_timeout = 5\<rparr> ''a'' = Inr False"
proof -
  have e: "extract_text (OCREngine_init None) ''a'' = Inr []"
    by (simp add: OCREngine_init_def OCREngine_extract_text_def)
  have p: "check_assertion watcher1_ocr \<lparr>a_type = ''text_exists'', a_value = ''OK'', a_timeout = 5\<rparr> ''a'' = Inr True"
    by (simp add: check_assertion_stable [OF watcher1_ocr_stable] contains_text_def)
       (simp add: watcher1_ocr_def push_screenshot_fields fixed_ocr_def sublist_code)
  note t = text_not_exists_negates_text_exists [where eng = "OCREngine_init None" and img = "''a''"
      and v = "''OK''" and w = watcher1_ocr and t = 5]
  from t e have n: "not_contains_text (OCREngine_init None) ''a'' ''OK'' = Inr True" by blast
  from t watcher1_ocr_stable p
  have "check_assertion watcher1_ocr \<lparr>a_type = ''text_not_exists'', a_value = ''OK'', a_timeout = 5\<rparr> ''a'' = Inr False"
    by simp
  with e n p watcher1_ocr_stable show ?thesis by simp
qed

section \<open>The stability gate\<close>

lemma check_assertion_unstable:
  "is_screen_stable w = Inr False \<Longrightarrow> check_assertion w a cur = Inr False"
  by (simp add: check_assertion_def)

lemma check_each_unstable:
  "is_screen_stable w = Inr False \<Longrightarrow> check_each w as cur = Inr None"
  by (induction as) (simp_all add: check_assertion_unstable)

lemma short_window_unstable:
  "int (length (recent_screenshots w)) < stable_frames w \<Longrightarrow> is_screen_stable w = Inr False"
  by (simp add: is_screen_stable_def)

text \<open>
  Claim C7. A window shorter than \<open>stable_frames\<close> is unstable; on an unstable window
  \<open>check_assertion\<close> returns \<open>False\<close> for every assertion, whatever its kind, no assertion
  of the tick is reported, and the watch loop goes on to the sleep and the next tick
  instead of returning a hit.
\<close>

theorem unstable_window_never_hits:
  "(int (length (recent_screenshots w)) < stable_frames w \<longrightarrow> is_screen_stable w = Inr False)
   \<and> (is_screen_stable w = Inr False \<longrightarrow>
        check_assertion w assertion current_screenshot = Inr False
        \<and> check_each w assertions current_screenshot = Inr None)
   \<and> (is_screen_stable (push_screenshot w current_screenshot) = Inr False \<longrightarrow>
        watch_loop w assertions (Inr current_screenshot # later) =
          (let w2 = (push_screenshot w current_screenshot)\<lparr>last_screenshot := Some current_screenshot\<rparr>
           in case time_sleep (poll_interval w2) of
                Inl e \<Rightarrow> (Inl e, w2)
              | Inr u \<Rightarrow> watch_loop w2 assertions later))"
  by (simp add: short_window_unstable check_assertion_unstable check_each_unstable Let_def)


text \<open>The claim at the two-frame watcher, whose window holds one frame after the first tick.\<close>

theorem unstable_window_never_hits_witness:
  "int (length (recent_screenshots watcher2)) < stable_frames watcher2
   \<and> is_screen_stable watcher2 = Inr False
   \<and> check_assertion watcher2 (text_not_exists ''x'') ''a'' = Inr False
   \<and> check_each watcher2 [text_not_exists ''x'', image_changed] ''a'' = Inr None
   \<and> is_screen_stable (push_screenshot watcher2 ''a'') = Inr False
   \<and> fst (watch_loop watcher2 [text_not_exists ''x''] [Inr ''a'']) = Inr (False, None)"
proof -
  have a: "int (length (recent_screenshots watcher2)) < stable_frames watcher2"
    by (simp add: watcher2_def AssertionWatcher_init_def)
  have b: "is_screen_stable (push_screenshot watcher2 ''a'') = Inr False"
    by (simp add: watcher2_def AssertionWatcher_init_def push_screenshot_def is_screen_stable_def)
  have c: "time_sleep (poll_interval ((push_screenshot watcher2 ''a'')\<lparr>last_screenshot := Some ''a''\<rparr>)) = Inr ()"
    by (simp add: watcher2_def AssertionWatcher_init_def push_screenshot_def time_sleep_def)
  note t = unstable_window_never_hits [where w = watcher2 and assertion = "text_not_exists ''x''"
      and current_screenshot = "''a''" and later = "[]"]
  from t [where assertions = "[]"] a have s: "is_screen_stable watcher2 = Inr False" by blast
  from t [where assertions = "[text_not_exists ''x'', image_changed]"] s
  have d: "check_assertion watcher2 (text_not_exists ''x'') ''a'' = Inr False"
     "check_each watcher2 [text_not_exists ''x'', image_changed] ''a'' = Inr None" by blast+
  from t [where assertions = "[text_not_exists ''x'']"] b have "watch_loop watcher2 [text_not_exists ''x''] [Inr ''a''] =
          (let w2 = (push_screenshot watcher2 ''a'')\<lparr>last_screenshot := Some ''a''\<rparr>
           in case time_sleep (poll_interval w2) of
                Inl e \<Rightarrow> (Inl e, w2)
              | Inr u \<Rightarrow> watch_loop w2 [text_not_exists ''x''] [])" by blast
  then have e: "fst (watch_loop watcher2 [text_not_exists ''x''] [Inr ''a'']) = Inr (False, None)"
    using c by (simp add: Let_def)
  from a s d b e show ?thesis by simp
qed

section \<open>One tick of the watch loop\<close>

lemma check_each_first:
  "\<forall>b\<in>set before. check_assertion w b cur = Inr False \<Longrightarrow>
   check_assertion w a cur = Inr True \<Longrightarrow>
   check_each w (before @ a # rest) cur = Inr (Some a)"
  by (induction before) simp_all

text \<open>When the engine returns on the frame, every assertion evaluates to a truth value,
  and the tick reports the first one that evaluates true.\<close>

lemma check_assertion_returns:
  "extract_text (ocr_engine u) cur = Inr texts \<Longrightarrow> \<exists>b. check_assertion u a cur = Inr b"
  by (auto simp: check_assertion_def is_screen_stable_spec contains_text_def not_contains_text_def
      split: option.splits)

lemma check_each_find:
  assumes "extract_text (ocr_engine u) cur = Inr texts"
  shows "check_each u assertions cur =
           Inr (find (\<lambda>a. check_assertion u a cur = Inr True) assertions)"
proof (induction assertions)
  case Nil
  show ?case by simp
next
  case (Cons a rest)
  from check_assertion_returns [OF assms, of a]
  obtain b where "check_assertion u a cur = Inr b" by blast
  with Cons show ?case by simp
qed

lemma watch_loop_hit:
  "check_each (push_screenshot w cur) assertions cur = Inr (Some a) \<Longrightarrow>
   watch_loop w assertions (Inr cur # later) =
     (Inr (True, Some (hit_msg a)), (push_screenshot w cur)\<lparr>running := False\<rparr>)"
  by (simp add: Let_def)

text \<open>
  Claim C5. On a tick, when the assertions before \<open>a\<close> in the declared order evaluate
  false and \<open>a\<close> evaluates true, the tick reports \<open>a\<close> and the watch returns the hit with
  the message of \<open>a\<close>, whatever follows \<open>a\<close> in the list (it is not evaluated). For
  \<open>[A, B]\<close> with \<open>A\<close> true the match reported is \<open>A\<close>, whatever \<open>B\<close> would give. When
  the engine returns on the frame, what a tick reports is the first assertion of the list
  that evaluates true, and nothing when there is none.
\<close>

theorem first_true_assertion_is_reported:
  "((\<forall>b\<in>set before. check_assertion (push_screenshot w cur) b cur = Inr False)
      \<and> check_assertion (push_screenshot w cur) a cur = Inr True \<longrightarrow>
        check_each (push_screenshot w cur) (before @ a # rest) cur = Inr (Some a)
        \<and> watch_loop w (before @ a # rest) (Inr cur # later) =
            (Inr (True, Some (hit_msg a)), (push_screenshot w cur)\<lparr>running := False\<rparr>))
   \<and> (check_assertion (push_screenshot w cur) A cur = Inr True \<longrightarrow>
        check_each (push_screenshot w cur) [A, B] cur = Inr (Some A)
        \<and> fst (watch_loop w [A, B] (Inr cur # later)) = Inr (True, Some (hit_msg A)))
   \<and> (extract_text (ocr_engine u) cur = Inr texts \<longrightarrow>
        check_each u assertions cur =
          Inr (find (\<lambda>a. check_assertion u a cur = Inr True) assertions))"
proof (intro conjI impI)
  assume "extract_text (ocr_engine u) cur = Inr texts"
  then show "check_each u assertions cur =
          Inr (find (\<lambda>a. check_assertion u a cur = Inr True) assertions)"
    by (rule check_each_find)
next
  assume h: "(\<forall>b\<in>set before. check_assertion (push_screenshot w cur) b cur = Inr False)
      \<and> check_assertion (push_screenshot w cur) a cur = Inr True"
  then show e: "check_each (push_screenshot w cur) (before @ a # rest) cur = Inr (Some a)"
    by (simp add: check_each_first)
  show "watch_loop w (before @ a # rest) (Inr cur # later) =
            (Inr (True, Some (hit_msg a)), (push_screenshot w cur)\<lparr>running := False\<rparr>)"
    by (rule watch_loop_hit [OF e])
next
  assume h: "check_assertion (push_screenshot w cur) A cur = Inr True"
  then show e: "check_each (push_screenshot w cur) [A, B] cur = Inr (Some A)" by simp
  show "fst (watch_loop w [A, B] (Inr cur # later)) = Inr (True, Some (hit_msg A))"
    by (simp only: watch_loop_hit [OF e] fst_conv)
qed

lemma watcher1_ocr_check:
  "check_assertion watcher1_ocr (text_exists v) ''a'' = Inr (sublist v ''Login OK'')"
  by (simp add: check_assertion_stable [OF watcher1_ocr_stable] contains_text_def text_exists_def)
     (simp add: watcher1_ocr_def push_screenshot_fields fixed_ocr_def)

text \<open>The claim at the fixed engine: \<open>Login\<close> and \<open>OK\<close> are both on the screen, \<open>Error\<close> is not.\<close>

theorem first_true_assertion_is_reported_witness:
  "check_assertion (push_screenshot (watcher1\<lparr>ocr_engine := fixed_ocr\<rparr>) ''a'') (text_exists ''Error'') ''a'' = Inr False
   \<and> check_assertion (push_screenshot (watcher1\<lparr>ocr_engine := fixed_ocr\<rparr>) ''a'') (text_exists ''Login'') ''a'' = Inr True
   \<and> check_assertion (push_screenshot (watcher1\<lparr>ocr_engine := fixed_ocr\<rparr>) ''a'') (text_exists ''OK'') ''a'' = Inr True
   \<and> fst (watch_loop (watcher1\<lparr>ocr_engine := fixed_ocr\<rparr>)
           ([text_exists ''Error''] @ text_exists ''Login'' # [text_exists ''OK'']) [Inr ''a''])
       = Inr (True, Some (hit_msg (text_exists ''Login'')))
   \<and> fst (watch_loop (watcher1\<lparr>ocr_engine := fixed_ocr\<rparr>) [text_exists ''Login'', text_exists ''OK''] [Inr ''a''])
       = Inr (True, Some (hit_msg (text_exists ''Login'')))"
proof -
  let ?w = "watcher1\<lparr>ocr_engine := fixed_ocr\<rparr>"
  have c: "check_assertion (push_screenshot ?w ''a'') (text_exists v) ''a'' = Inr (sublist v ''Login OK'')" for v
    using watcher1_ocr_check by (simp add: watcher1_ocr_def)
  have 1: "check_assertion (push_screenshot ?w ''a'') (text_exists ''Error'') ''a'' = Inr False"
    by (simp add: c sublist_code)
  have 2: "check_assertion (push_screenshot ?w ''a'') (text_exists ''Login'') ''a'' = Inr True"
    by (simp add: c sublist_code)
  have 3: "check_assertion (push_screenshot ?w ''a'') (text_exists ''OK'') ''a'' = Inr True"
    by (simp add: c sublist_code)
  note t = first_true_assertion_is_reported [where w = ?w and cur = "''a''" and later = "[]"
      and before = "[text_exists ''Error'']" and a = "text_exists ''Login''" and rest = "[text_exists ''OK'']"
      and A = "text_exists ''Login''" and B = "text_exists ''OK''"]
  from t 1 2 have 4: "fst (watch_loop ?w ([text_exists ''Error''] @ text_exists ''Login'' # [text_exists ''OK'']) [Inr ''a''])
       = Inr (True, Some (hit_msg (text_exists ''Login'')))" by simp
  from t 2 have 5: "fst (watch_loop ?w [text_exists ''Login'', text_exists ''OK''] [Inr ''a''])
       = Inr (True, Some (hit_msg (text_exists ''Login'')))" by blast
  from 1 2 3 4 5 show ?thesis by blast
qed

section \<open>The default engine\<close>

lemma default_engine:
  "extract_text (OCREngine_init dev) img = Inr []"
  "contains_text (OCREngine_init dev) img v = Inr False"
  "not_contains_text (OCREngine_init dev) img v = Inr True"
  by (simp_all add: OCREngine_init_def OCREngine_extract_text_def contains_text_def
      not_contains_text_def)

lemma check_assertion_default_text_exists:
  "ocr_engine w = OCREngine_init dev \<Longrightarrow> a_type a = ''text_exists'' \<Longrightarrow>
   check_assertion w a cur = Inr False"
  by (simp add: check_assertion_def is_screen_stable_spec default_engine)

lemma check_each_default_text_exists:
  "ocr_engine w = OCREngine_init dev \<Longrightarrow> \<forall>a\<in>set as. a_type a = ''text_exists'' \<Longrightarrow>
   check_each w as cur = Inr None"
  by (induction as) (simp_all add: check_assertion_default_text_exists)

lemma watch_loop_default_text_exists:
  "ocr_engine w = OCREngine_init dev \<Longrightarrow> \<forall>a\<in>set as. a_type a = ''text_exists'' \<Longrightarrow>
   fst (watch_loop w as caps) \<noteq> Inr (True, m)"
proof (induction caps arbitrary: w)
  case Nil
  show ?case by simp
next
  case (Cons c caps)
  show ?case
  proof (cases c)
    case (Inl e)
    then show ?thesis by simp
  next
    case (Inr cur)
    let ?w1 = "push_screenshot w cur"
    let ?w2 = "?w1\<lparr>last_screenshot := Some cur\<rparr>"
    have o1: "ocr_engine ?w1 = OCREngine_init dev" using Cons.prems(1) by (simp add: push_screenshot_fields)
    then have o2: "ocr_engine ?w2 = OCREngine_init dev" by simp
    have n: "check_each ?w1 as cur = Inr None"
      by (rule check_each_default_text_exists [OF o1 Cons.prems(2)])
    from Cons.IH [OF o2 Cons.prems(2)] show ?thesis
      using Inr n by (simp add: Let_def split: sum.splits)
  qed
qed

text \<open>
  Claim C10. The engine a watcher constructs when none is injected extracts the empty
  list from every image, so \<open>contains_text\<close> is false and \<open>not_contains_text\<close> is true for
  every image and target. With it, a watch over \<open>text_exists\<close> assertions never returns a
  hit, and a \<open>text_not_exists\<close> assertion is hit on a tick as soon as the screen is stable.
\<close>

theorem default_ocr_engine_reads_no_text:
  "extract_text (OCREngine_init dev) img = Inr []
   \<and> contains_text (OCREngine_init dev) img v = Inr False
   \<and> not_contains_text (OCREngine_init dev) img v = Inr True
   \<and> ocr_engine (AssertionWatcher_init l None chk poll frames thr) = OCREngine_init None
   \<and> (ocr_engine w = OCREngine_init dev \<and> (\<forall>a\<in>set as. a_type a = ''text_exists'') \<longrightarrow>
        check_each w as cur = Inr None \<and> fst (watch w as caps) \<noteq> Inr (True, m))
   \<and> (ocr_engine w = OCREngine_init dev \<and> a_type a = ''text_not_exists''
        \<and> is_screen_stable (push_screenshot w cur) = Inr True \<longrightarrow>
        check_assertion (push_screenshot w cur) a cur = Inr True
        \<and> watch_loop w [a] (Inr cur # later) =
            (Inr (True, Some (hit_msg a)), (push_screenshot w cur)\<lparr>running := False\<rparr>))"
proof (intro conjI impI)
  assume h: "ocr_engine w = OCREngine_init dev \<and> (\<forall>a\<in>set as. a_type a = ''text_exists'')"
  then show "check_each w as cur = Inr None" by (simp add: check_each_default_text_exists)
  from h have "ocr_engine (watch_start w) = OCREngine_init dev" by (simp add: watch_start_def)
  with h show "fst (watch w as caps) \<noteq> Inr (True, m)"
    unfolding watch_def by (intro watch_loop_default_text_exists) simp_all
next
  assume h: "ocr_engine w = OCREngine_init dev \<and> a_type a = ''text_not_exists''
        \<and> is_screen_stable (push_screenshot w cur) = Inr True"
  then show c: "check_assertion (push_screenshot w cur) a cur = Inr True"
    by (simp add: check_assertion_stable push_screenshot_fields default_engine)
  then have "check_each (push_screenshot w cur) [a] cur = Inr (Some a)" by simp
  then show "watch_loop w [a] (Inr cur # later) =
            (Inr (True, Some (hit_msg a)), (push_screenshot w cur)\<lparr>running := False\<rparr>)"
    by (rule watch_loop_hit)
qed (simp_all add: default_engine AssertionWatcher_init_def)

lemma watcher1_push_stable: "is_screen_stable (push_screenshot watcher1 ''a'') = Inr True"
  by (simp add: watcher1_def AssertionWatcher_init_def push_screenshot_def
      is_screen_stable_def is_stable_def Let_def)

text \<open>The claim at the one-frame watcher, which is stable from its first frame.\<close>

theorem default_ocr_engine_reads_no_text_witness:
  "ocr_engine watcher1 = OCREngine_init None
   \<and> list_all (\<lambda>a. a_type a = ''text_exists'') [text_exists ''a'', text_exists ''b'']
   \<and> check_each watcher1 [text_exists ''a'', text_exists ''b''] ''a'' = Inr None
   \<and> fst (watch watcher1 [text_exists ''a'', text_exists ''b''] [Inr ''a'', Inr ''a'']) \<noteq> Inr (True, None)
   \<and> a_type (text_not_exists ''a'') = ''text_not_exists''
   \<and> is_screen_stable (push_screenshot watcher1 ''a'') = Inr True
   \<and> fst (watch_loop watcher1 [text_not_exists ''a''] [Inr ''a''])
        = Inr (True, Some (hit_msg (text_not_exists ''a'')))"
proof -
  have o: "ocr_engine watcher1 = OCREngine_init None"
    by (simp add: watcher1_def AssertionWatcher_init_def)
  have ty: "\<forall>a\<in>set [text_exists ''a'', text_exists ''b'']. a_type a = ''text_exists''"
    by (simp add: text_exists_def)
  have tn: "a_type (text_not_exists ''a'') = ''text_not_exists''"
    by (simp add: text_not_exists_def)
  note t = default_ocr_engine_reads_no_text [where w = watcher1 and dev = None and cur = "''a''"
      and as = "[text_exists ''a'', text_exists ''b'']" and caps = "[Inr ''a'', Inr ''a'']"
      and m = None and a = "text_not_exists ''a''" and later = "[]"]
  from t o ty have 1: "check_each watcher1 [text_exists ''a'', text_exists ''b''] ''a'' = Inr None"
    "fst (watch watcher1 [text_exists ''a'', text_exists ''b''] [Inr ''a'', Inr ''a'']) \<noteq> Inr (True, None)"
    by blast+
  from t o tn watcher1_push_stable
  have "watch_loop watcher1 [text_not_exists ''a''] [Inr ''a''] =
      (Inr (True, Some (hit_msg (text_not_exists ''a''))), (push_screenshot watcher1 ''a'')\<lparr>running := False\<rparr>)"
    by blast
  then have 2: "fst (watch_loop watcher1 [text_not_exists ''a''] [Inr ''a''])
        = Inr (True, Some (hit_msg (text_not_exists ''a'')))" by simp
  from ty have "list_all (\<lambda>a. a_type a = ''text_exists'') [text_exists ''a'', text_exists ''b'']"
    by simp
  with o tn 1 2 watcher1_push_stable show ?thesis by blast
qed

section \<open>The rolling window\<close>

lemma push_screenshot_window:
  "recent_screenshots (push_screenshot w x) =
     (if stable_frames w < int (length (recent_screenshots w)) + 1
      then tl (recent_screenshots w @ [x]) else recent_screenshots w @ [x])"
  by (simp add: push_screenshot_def Let_def)

lemma push_screenshot_bounded:
  assumes "0 \<le> stable_frames w" "int (length (recent_screenshots w)) \<le> stable_frames w"
  shows "int (length (recent_screenshots (push_screenshot w x))) \<le> stable_frames w"
  using assms by (simp add: push_screenshot_window)

text \<open>After a push the window is the last \<open>stable_frames\<close> frames of the old window followed
  by the new frame.\<close>

lemma push_screenshot_fifo:
  assumes "0 \<le> stable_frames w" "int (length (recent_screenshots w)) \<le> stable_frames w"
  shows "recent_screenshots (push_screenshot w x) = trailing (stable_frames w) (recent_screenshots w @ [x])"
proof (cases "stable_frames w < int (length (recent_screenshots w)) + 1")
  case True
  with assms have "nat (stable_frames w) = length (recent_screenshots w)" by simp
  then have "trailing (stable_frames w) (recent_screenshots w @ [x]) =
             drop (Suc 0) (recent_screenshots w @ [x])"
    by (simp add: trailing_def)
  also have "\<dots> = tl (recent_screenshots w @ [x])"
    by (simp only: drop_Suc drop_0)
  finally show ?thesis using True by (simp only: push_screenshot_window if_True)
next
  case False
  then show ?thesis by (simp add: push_screenshot_window trailing_def)
qed

lemma trailing_trailing_append:
  assumes "0 \<le> k"
  shows "trailing k (trailing k xs @ [x]) = trailing k (xs @ [x])"
proof (cases "nat k \<le> length xs")
  case True
  then show ?thesis using assms by (simp add: trailing_def) (simp add: Suc_diff_le)
next
  case False
  then show ?thesis by (simp add: trailing_def)
qed

lemma pushes_fifo:
  assumes "0 \<le> stable_frames w" "int (length (recent_screenshots w)) \<le> stable_frames w"
  shows "recent_screenshots (foldl push_screenshot w xs) =
           trailing (stable_frames w) (recent_screenshots w @ xs)
         \<and> stable_frames (foldl push_screenshot w xs) = stable_frames w"
  using assms
proof (induction xs rule: rev_induct)
  case Nil
  then show ?case by (simp add: trailing_def)
next
  case (snoc x xs)
  let ?w = "foldl push_screenshot w xs"
  let ?k = "stable_frames w"
  from snoc have ih: "recent_screenshots ?w = trailing ?k (recent_screenshots w @ xs)"
    and k: "stable_frames ?w = ?k" by simp_all
  have len: "int (length (recent_screenshots ?w)) \<le> stable_frames ?w"
    using snoc.prems by (simp add: ih k trailing_def)
  have k0: "0 \<le> stable_frames ?w" using snoc.prems k by simp
  have "recent_screenshots (push_screenshot ?w x) = trailing ?k (recent_screenshots ?w @ [x])"
    using push_screenshot_fifo [OF k0 len] k by simp
  also have "\<dots> = trailing ?k ((recent_screenshots w @ xs) @ [x])"
    unfolding ih using snoc.prems(1) by (rule trailing_trailing_append)
  finally show ?case by (simp add: push_screenshot_fields k)
qed

lemma watch_loop_window_bounded:
  assumes "0 \<le> stable_frames w" "int (length (recent_screenshots w)) \<le> stable_frames w"
  shows "int (length (recent_screenshots (snd (watch_loop w as caps)))) \<le> stable_frames w
         \<and> stable_frames (snd (watch_loop w as caps)) = stable_frames w"
  using assms
proof (induction caps arbitrary: w)
  case Nil
  then show ?case by simp
next
  case (Cons c caps)
  show ?case
  proof (cases c)
    case (Inl e)
    with Cons.prems show ?thesis by simp
  next
    case (Inr cur)
    let ?w1 = "push_screenshot w cur"
    let ?w2 = "?w1\<lparr>last_screenshot := Some cur\<rparr>"
    have b1: "int (length (recent_screenshots ?w1)) \<le> stable_frames w"
      by (rule push_screenshot_bounded [OF Cons.prems])
    have k2: "0 \<le> stable_frames ?w2" using Cons.prems(1) by (simp add: push_screenshot_fields)
    have b2: "int (length (recent_screenshots ?w2)) \<le> stable_frames ?w2"
      using b1 by (simp add: push_screenshot_fields)
    from Cons.IH [OF k2 b2] b1 show ?thesis
      using Inr by (simp add: Let_def push_screenshot_fields split: sum.splits option.splits)
  qed
qed

text \<open>
  Claim C8. For a frame count \<open>stable_frames \<ge> 0\<close> and a window within it (as the
  constructor's empty window is), the window is within \<open>stable_frames\<close> after a watch over
  any captures and after any sequence of pushes; the pushes leave the last \<open>stable_frames\<close>
  frames in arrival order, and a push onto a full window drops its oldest frame.
\<close>

theorem window_never_exceeds_stable_frames:
  assumes "0 \<le> stable_frames w"
    and "int (length (recent_screenshots w)) \<le> stable_frames w"
  shows "int (length (recent_screenshots (snd (watch w assertions caps)))) \<le> stable_frames w
    \<and> int (length (recent_screenshots (foldl push_screenshot w frames))) \<le> stable_frames w
    \<and> recent_screenshots (foldl push_screenshot w frames) =
        drop (length (recent_screenshots w @ frames) - nat (stable_frames w))
          (recent_screenshots w @ frames)
    \<and> recent_screenshots (push_screenshot w x) =
        (if int (length (recent_screenshots w)) = stable_frames w
         then tl (recent_screenshots w @ [x]) else recent_screenshots w @ [x])"
proof (intro conjI)
  have "0 \<le> stable_frames (watch_start w)"
    "int (length (recent_screenshots (watch_start w))) \<le> stable_frames (watch_start w)"
    using assms by (simp_all add: watch_start_def)
  from watch_loop_window_bounded [OF this]
  show "int (length (recent_screenshots (snd (watch w assertions caps)))) \<le> stable_frames w"
    by (simp add: watch_def watch_start_def)
  from pushes_fifo [OF assms, of frames]
  show f: "recent_screenshots (foldl push_screenshot w frames) =
        drop (length (recent_screenshots w @ frames) - nat (stable_frames w))
          (recent_screenshots w @ frames)"
    by (simp add: trailing_def)
  show "int (length (recent_screenshots (foldl push_screenshot w frames))) \<le> stable_frames w"
    unfolding f using assms by simp
  show "recent_screenshots (push_screenshot w x) =
        (if int (length (recent_screenshots w)) = stable_frames w
         then tl (recent_screenshots w @ [x]) else recent_screenshots w @ [x])"
    using assms by (simp add: push_screenshot_window)
qed

text \<open>The claim at the two-frame watcher and three frames.\<close>

theorem window_never_exceeds_stable_frames_witness:
  "0 \<le> stable_frames watcher2
   \<and> int (length (recent_screenshots watcher2)) \<le> stable_frames watcher2
   \<and> int (length (recent_screenshots (snd (watch watcher2 [] [Inr ''a'', Inr ''b'', Inr ''c''])))) \<le> 2
   \<and> recent_screenshots (foldl push_screenshot watcher2 [''a'', ''b'', ''c'']) = [''b'', ''c'']"
proof -
  have a: "0 \<le> stable_frames watcher2"
    and b: "int (length (recent_screenshots watcher2)) \<le> stable_frames watcher2"
    and k: "stable_frames watcher2 = 2" and r: "recent_screenshots watcher2 = []"
    by (simp_all add: watcher2_def AssertionWatcher_init_def)
  note t = window_never_exceeds_stable_frames [OF a b, where frames = "[''a'', ''b'', ''c'']"
      and assertions = "[]" and caps = "[Inr ''a'', Inr ''b'', Inr ''c'']"]
  from t have 1: "int (length (recent_screenshots (snd (watch watcher2 [] [Inr ''a'', Inr ''b'', Inr ''c''])))) \<le> 2"
    by (simp only: k)
  from t have "recent_screenshots (foldl push_screenshot watcher2 [''a'', ''b'', ''c'']) =
        drop (length (recent_screenshots watcher2 @ [''a'', ''b'', ''c'']) - nat (stable_frames watcher2))
          (recent_screenshots watcher2 @ [''a'', ''b'', ''c''])" by blast
  then have 2: "recent_screenshots (foldl push_screenshot watcher2 [''a'', ''b'', ''c'']) = [''b'', ''c'']"
    by (simp add: k r)
  from a b 1 2 show ?thesis by blast
qed

section \<open>Exceptions of the capture function\<close>

text \<open>A watch that runs out of ticks without a hit would go on from the same watcher.\<close>

lemma watch_loop_append:
  "watch_loop w as earlier = (Inr (False, None), w') \<Longrightarrow>
   watch_loop w as (earlier @ rest) = watch_loop (w'\<lparr>running := running w\<rparr>) as rest"
proof (induction earlier arbitrary: w)
  case Nil
  then show ?case by auto
next
  case (Cons c caps)
  show ?case
  proof (cases c)
    case (Inl e)
    with Cons.prems show ?thesis by simp
  next
    case (Inr cur)
    let ?w1 = "push_screenshot w cur"
    let ?w2 = "?w1\<lparr>last_screenshot := Some cur\<rparr>"
    from Cons.prems Inr have s: "watch_loop ?w2 as caps = (Inr (False, None), w')"
      and n: "check_each ?w1 as cur = Inr None" and sl: "time_sleep (poll_interval ?w2) = Inr ()"
      by (simp_all add: Let_def split: sum.splits option.splits)
    from Cons.IH [OF s] show ?thesis
      using Inr n sl by (simp add: Let_def push_screenshot_fields)
  qed
qed

text \<open>
  Claim C1, amended. On the tick where the capture function raises, \<open>watch\<close> does not skip
  the tick and go on: the exception leaves \<open>watch\<close> at that tick, the captures after it
  are not polled, and the watcher keeps the window and the previous frame that the tick
  before left, its running flag still set.
\<close>

theorem capture_exception_propagates_from_watch:
  "watch_loop w assertions (Inl e # later) = (Inl e, w)
   \<and> (watch_loop w assertions earlier = (Inr (False, None), w') \<longrightarrow>
        watch_loop w assertions (earlier @ Inl e # later) = (Inl e, w'\<lparr>running := running w\<rparr>))
   \<and> watch w assertions (Inl e # later) = (Inl e, w\<lparr>running := True\<rparr>)
   \<and> (watch w assertions earlier = (Inr (False, None), w') \<longrightarrow>
        watch w assertions (earlier @ Inl e # later) = (Inl e, w'\<lparr>running := True\<rparr>))"
  by (simp add: watch_loop_append watch_def watch_start_def)

lemma watcher2_first_tick:
  "fst (watch_loop watcher2 [text_not_exists ''x''] [Inr ''a'']) = Inr (False, None)"
proof -
  have "is_screen_stable (push_screenshot watcher2 ''a'') = Inr False"
    by (simp add: watcher2_def AssertionWatcher_init_def push_screenshot_def is_screen_stable_def)
  then have "check_each (push_screenshot watcher2 ''a'') [text_not_exists ''x''] ''a'' = Inr None"
    by (simp add: check_assertion_def)
  moreover have "time_sleep (poll_interval (push_screenshot watcher2 ''a'')) = Inr ()"
    by (simp add: push_screenshot_fields watcher2_def AssertionWatcher_init_def time_sleep_def)
  ultimately show ?thesis by (simp add: Let_def)
qed

text \<open>The claim at the two-frame watcher: the first tick passes unstable, the second raises.\<close>

lemma watcher2_first_tick_of_watch:
  "fst (watch watcher2 [text_not_exists ''x''] [Inr ''a'']) = Inr (False, None)"
proof -
  let ?w = "watch_start watcher2"
  have "is_screen_stable (push_screenshot ?w ''a'') = Inr False"
    by (simp add: watcher2_def AssertionWatcher_init_def push_screenshot_def is_screen_stable_def
        watch_start_def)
  then have "check_each (push_screenshot ?w ''a'') [text_not_exists ''x''] ''a'' = Inr None"
    by (simp add: check_assertion_def)
  moreover have "time_sleep (poll_interval (push_screenshot ?w ''a'')) = Inr ()"
    by (simp add: push_screenshot_fields watcher2_def AssertionWatcher_init_def time_sleep_def
        watch_start_def)
  ultimately show ?thesis by (simp add: watch_def Let_def)
qed

theorem capture_exception_propagates_from_watch_witness:
  "fst (watch_loop watcher2 [text_not_exists ''x''] [Inr ''a'']) = Inr (False, None)
   \<and> fst (watch_loop watcher2 [text_not_exists ''x''] ([Inr ''a''] @ [Inl (Exception ''adb''), Inr ''a'', Inr ''a'']))
       = Inl (Exception ''adb'')
   \<and> fst (watch watcher2 [text_not_exists ''x''] [Inr ''a'']) = Inr (False, None)
   \<and> fst (watch watcher2 [text_not_exists ''x''] ([Inr ''a''] @ [Inl (Exception ''adb''), Inr ''a'', Inr ''a'']))
       = Inl (Exception ''adb'')"
proof -
  obtain w' where 1: "watch_loop watcher2 [text_not_exists ''x''] [Inr ''a''] = (Inr (False, None), w')"
    using watcher2_first_tick by (metis prod.collapse)
  obtain v' where 2: "watch watcher2 [text_not_exists ''x''] [Inr ''a''] = (Inr (False, None), v')"
    using watcher2_first_tick_of_watch by (metis prod.collapse)
  from capture_exception_propagates_from_watch [where w = watcher2 and assertions = "[text_not_exists ''x'']"
      and earlier = "[Inr ''a'']" and w' = w' and e = "Exception ''adb''" and later = "[Inr ''a'', Inr ''a'']"] 1
  have 3: "watch_loop watcher2 [text_not_exists ''x''] ([Inr ''a''] @ Inl (Exception ''adb'') # [Inr ''a'', Inr ''a''])
       = (Inl (Exception ''adb''), w'\<lparr>running := running watcher2\<rparr>)" by blast
  from capture_exception_propagates_from_watch [where w = watcher2 and assertions = "[text_not_exists ''x'']"
      and earlier = "[Inr ''a'']" and w' = v' and e = "Exception ''adb''" and later = "[Inr ''a'', Inr ''a'']"] 2
  have 4: "watch watcher2 [text_not_exists ''x''] ([Inr ''a''] @ Inl (Exception ''adb'') # [Inr ''a'', Inr ''a''])
       = (Inl (Exception ''adb''), v'\<lparr>running := True\<rparr>)" by blast
  from 1 2 3 4 show ?thesis by simp
qed

text \<open>The claim as first stated fails: a capture that raises on the first tick ends the watch
  with that exception, although the next tick alone would have been a hit.\<close>

theorem capture_exception_aborts_watch_counterexample:
  "fst (watch watcher1 [text_not_exists ''x''] [Inl (Exception ''adb''), Inr ''a'']) = Inl (Exception ''adb'')
   \<and> fst (watch watcher1 [text_not_exists ''x''] [Inr ''a''])
        = Inr (True, Some (hit_msg (text_not_exists ''x'')))"
proof -
  have s: "is_screen_stable (push_screenshot (watch_start watcher1) ''a'') = Inr True"
    by (simp add: watcher1_def AssertionWatcher_init_def push_screenshot_def watch_start_def
        is_screen_stable_def is_stable_def Let_def)
  have "check_assertion (push_screenshot (watch_start watcher1) ''a'') (text_not_exists ''x'') ''a'' = Inr True"
    by (simp add: check_assertion_stable [OF s] text_not_exists_def push_screenshot_fields)
       (simp add: watch_start_def watcher1_def AssertionWatcher_init_def default_engine)
  then have "check_each (push_screenshot (watch_start watcher1) ''a'') [text_not_exists ''x''] ''a''
      = Inr (Some (text_not_exists ''x''))" by simp
  from watch_loop_hit [OF this] show ?thesis by (simp add: watch_def)
qed

section \<open>Failures of decoding and of the difference\<close>

lemma calculate_diff_try_steps:
  "b64decode (lib c) a = Inl e \<Longrightarrow> calculate_diff_try c a b = Inl e"
  "b64decode (lib c) a = Inr da \<Longrightarrow> b64decode (lib c) b = Inl e \<Longrightarrow> calculate_diff_try c a b = Inl e"
  "b64decode (lib c) a = Inr da \<Longrightarrow> b64decode (lib c) b = Inr db \<Longrightarrow> Image_open (lib c) da = Inl e
     \<Longrightarrow> calculate_diff_try c a b = Inl e"
  "b64decode (lib c) a = Inr da \<Longrightarrow> b64decode (lib c) b = Inr db \<Longrightarrow> Image_open (lib c) da = Inr ia
     \<Longrightarrow> Image_open (lib c) db = Inl e \<Longrightarrow> calculate_diff_try c a b = Inl e"
  by (simp_all add: calculate_diff_try_def)

text \<open>
  Claim C9. Whenever decoding or the difference computation raises inside
  \<open>calculate_diff\<close>, the function prints the warning and returns \<open>0.0\<close>; nothing is raised.
  For a threshold in the documented range (not negative) \<open>has_changed\<close> is then false, the
  pair is within every stability threshold, and a window of the two frames is stable.
\<close>

theorem failed_diff_is_zero:
  assumes "calculate_diff_try c a b = Inl e"
  shows "calculate_diff c a b = (0, [DiffFailedWarning (str_exn e)])
    \<and> (0 \<le> threshold c \<longrightarrow> \<not> has_changed c a b)
    \<and> (0 \<le> thr \<longrightarrow> \<not> fst (calculate_diff c a b) > thr
          \<and> is_stable c [a, b] 2 thr = Inr True)"
  using assms by (simp add: calculate_diff_def has_changed_def is_stable_def py_getitem_def)

text \<open>The claim at the empty file, which the library cannot open.\<close>

theorem failed_diff_is_zero_witness:
  "calculate_diff_try (ImageDiffChecker_init bytes_imaging default_threshold) [] ''a''
     = Inl (Exception ''cannot identify image file'')
   \<and> 0 \<le> threshold (ImageDiffChecker_init bytes_imaging default_threshold)
   \<and> calculate_diff (ImageDiffChecker_init bytes_imaging default_threshold) [] ''a''
       = (0, [DiffFailedWarning ''cannot identify image file''])
   \<and> \<not> has_changed (ImageDiffChecker_init bytes_imaging default_threshold) [] ''a''
   \<and> is_stable (ImageDiffChecker_init bytes_imaging default_threshold) [[], ''a''] 2 (5 / 100) = Inr True"
proof -
  let ?c = "ImageDiffChecker_init bytes_imaging default_threshold"
  have t: "calculate_diff_try ?c [] ''a'' = Inl (Exception ''cannot identify image file'')"
    by (simp add: calculate_diff_try_def ImageDiffChecker_init_def bytes_imaging_def)
  have z: "0 \<le> threshold ?c" by (simp add: ImageDiffChecker_init_def default_threshold_def)
  from failed_diff_is_zero [OF t, of "5 / 100"] z show ?thesis using t by simp
qed

section \<open>The runner\<close>

lemma run_agent_fields:
  "watcher (run_agent r ao) = watcher r"
  "save_screenshot_func (run_agent r ao) = save_screenshot_func r"
  by (simp_all add: run_agent_def split: option.splits sum.splits)

lemma run_try_watcher:
  "watcher (fst (snd (run_try r env objs))) =
     (case fst (watch (watcher r) objs (captures env)) of
        Inl e \<Rightarrow> snd (watch (watcher r) objs (captures env))
      | Inr res \<Rightarrow> stop (snd (watch (watcher r) objs (captures env))))"
  by (simp add: run_try_def stop_agent_def Let_def split: prod.splits sum.splits option.splits)

lemma run_with_assertion_watcher:
  assumes "assertion_objects assertions timeout = Inr objs"
  shows "watcher (snd (run_with_assertion r env prompt assertions timeout)) =
           stop (snd (watch (watcher r) objs (captures env)))"
proof -
  obtain out r' calls where t: "run_try r env objs = (out, r', calls)"
    by (cases "run_try r env objs") auto
  from run_try_watcher [of r env objs] t
  have w: "watcher r' = (case fst (watch (watcher r) objs (captures env)) of
        Inl e \<Rightarrow> snd (watch (watcher r) objs (captures env))
      | Inr res \<Rightarrow> stop (snd (watch (watcher r) objs (captures env))))" by simp
  show ?thesis
  proof (cases out)
    case (Inr res)
    with t have "fst (watch (watcher r) objs (captures env)) \<noteq> Inl e" for e
      by (auto simp: run_try_def split: prod.splits sum.splits)
    with w Inr t assms show ?thesis
      by (simp add: run_with_assertion_def run_agent_fields split: sum.splits)
  next
    case (Inl e)
    have "watcher (snd (run_except r' env e calls)) = stop (watcher r')"
      by (simp add: run_except_def stop_agent_def Let_def split: option.splits sum.splits)
    moreover have "stop (watcher r') = stop (snd (watch (watcher r) objs (captures env)))"
      using w by (simp add: stop_def split: sum.splits)
    ultimately show ?thesis using Inl t assms
      by (auto simp: run_with_assertion_def run_agent_fields split: prod.splits)
  qed
qed

lemma run_with_assertion_cases:
  assumes conv: "assertion_objects assertions timeout = Inr objs"
  shows "fst (run_with_assertion r env prompt assertions timeout) =
    (case fst (watch (watcher r) objs (captures env)) of
       Inr (hit, m) \<Rightarrow>
         (if hit then Inr \<lparr>success = True, message = message_or m passed_msg,
                           elapsed_time = clock_elapsed env, screenshot_path = None\<rparr>
          else (case save_screenshot_func r of
                  None \<Rightarrow> Inr \<lparr>success = False, message = timeout_msg,
                               elapsed_time = clock_elapsed env, screenshot_path = None\<rparr>
                | Some save \<Rightarrow>
                    (case save 0 of
                       Inr path \<Rightarrow> Inr \<lparr>success = False, message = timeout_msg,
                                        elapsed_time = clock_elapsed env, screenshot_path = path\<rparr>
                     | Inl e \<Rightarrow>
                         (case save 1 of
                            Inr path \<Rightarrow> Inr \<lparr>success = False, message = exception_prefix @ str_exn e,
                                        elapsed_time = clock_elapsed env, screenshot_path = path\<rparr>
                          | Inl e' \<Rightarrow> Inl e'))))
     | Inl e \<Rightarrow>
         (case save_screenshot_func r of
            None \<Rightarrow> Inr \<lparr>success = False, message = exception_prefix @ str_exn e,
                         elapsed_time = clock_elapsed env, screenshot_path = None\<rparr>
          | Some save \<Rightarrow>
              (case save 0 of
                 Inr path \<Rightarrow> Inr \<lparr>success = False, message = exception_prefix @ str_exn e,
                                  elapsed_time = clock_elapsed env, screenshot_path = path\<rparr>
               | Inl e' \<Rightarrow> Inl e')))"
  by (simp add: run_with_assertion_def conv run_try_def run_except_def stop_agent_def Let_def
      split: prod.splits sum.splits option.splits)

text \<open>
  Claim C4, amended. When every assertion dict holds \<open>type\<close> and \<open>value\<close> and the first
  call of a configured \<open>save_screenshot_func\<close> returns, \<open>run_with_assertion\<close> returns an
  \<open>AssertionResult\<close>: \<open>success\<close> is true exactly when the watch reported a hit; on a timeout
  or on an exception raised while polling, \<open>success\<close> is false and \<open>screenshot_path\<close> is
  what \<open>save_screenshot_func\<close> returned (\<open>None\<close> without one), the message carrying the
  exception's text in the second case; and the result is the same whatever the agent thread
  returned, raised or stored.
\<close>

theorem run_with_assertion_returns_result:
  assumes conv: "assertion_objects assertions timeout = Inr objs"
    and save_ok: "\<forall>save. save_screenshot_func r = Some save \<longrightarrow> (\<exists>path. save 0 = Inr path)"
  shows "\<exists>res. fst (run_with_assertion r env prompt assertions timeout) = Inr res
    \<and> (success res \<longleftrightarrow> (\<exists>m. fst (watch (watcher r) objs (captures env)) = Inr (True, m)))
    \<and> (\<not> success res \<longrightarrow>
         screenshot_path res =
           (case save_screenshot_func r of
              None \<Rightarrow> None
            | Some save \<Rightarrow> (case save 0 of Inr path \<Rightarrow> path | Inl e \<Rightarrow> None)))
    \<and> (\<forall>e. fst (watch (watcher r) objs (captures env)) = Inl e \<longrightarrow>
         message res = exception_prefix @ str_exn e)
    \<and> fst (run_with_assertion (r\<lparr>agent_result := ar, agent_error := ae\<rparr>)
             (env\<lparr>agent_outcome := ao\<rparr>) prompt assertions timeout) = Inr res"
proof -
  let ?r2 = "r\<lparr>agent_result := ar, agent_error := ae\<rparr>"
  let ?e2 = "env\<lparr>agent_outcome := ao\<rparr>"
  have same: "fst (run_with_assertion ?r2 ?e2 prompt assertions timeout) =
              fst (run_with_assertion r env prompt assertions timeout)"
    by (simp add: run_with_assertion_cases [OF conv] split: sum.splits option.splits prod.splits)
  show ?thesis
  proof (cases "fst (watch (watcher r) objs (captures env))")
    case (Inl e)
    show ?thesis
    proof (cases "save_screenshot_func r")
      case None
      with Inl same show ?thesis by (simp add: run_with_assertion_cases [OF conv])
    next
      case (Some save)
      with save_ok obtain path where "save 0 = Inr path" by blast
      with Inl Some same show ?thesis by (simp add: run_with_assertion_cases [OF conv])
    qed
  next
    case (Inr res)
    obtain hit m where res: "res = (hit, m)" by (cases res)
    show ?thesis
    proof (cases hit)
      case True
      with Inr res same show ?thesis by (simp add: run_with_assertion_cases [OF conv])
    next
      case False
      show ?thesis
      proof (cases "save_screenshot_func r")
        case None
        with Inr res False same show ?thesis by (simp add: run_with_assertion_cases [OF conv])
      next
        case (Some save)
        with save_ok obtain path where "save 0 = Inr path" by blast
        with Inr res False Some same show ?thesis by (simp add: run_with_assertion_cases [OF conv])
      qed
    qed
  qed
qed

text \<open>The claim at a runner that saves a screenshot, in a call that times out.\<close>

theorem run_with_assertion_returns_result_witness:
  "assertion_objects [ok_dict] 10 = Inr [text_exists ''OK'']
   \<and> save_screenshot_func runner_saving = Some (\<lambda>k. Inr (Some ''failure.png''))
   \<and> (\<exists>res. fst (run_with_assertion runner_saving quiet_world ''tap'' [ok_dict] 10) = Inr res
         \<and> \<not> success res \<and> screenshot_path res = Some ''failure.png'')"
proof -
  have c: "assertion_objects [ok_dict] 10 = Inr [text_exists ''OK'']"
    by (simp add: ok_dict_def to_assertion_def text_exists_def)
  have s: "\<forall>save. save_screenshot_func runner_saving = Some save \<longrightarrow> (\<exists>path. save 0 = Inr path)"
    by (auto simp: runner_saving_def AssertionRunner_init_def)
  have w: "fst (watch (watcher runner_saving) [text_exists ''OK''] (captures quiet_world)) = Inr (False, None)"
    by (simp add: quiet_world_def watch_def)
  from run_with_assertion_returns_result [OF c s, of quiet_world "''tap''" None None None]
  obtain res where r: "fst (run_with_assertion runner_saving quiet_world ''tap'' [ok_dict] 10) = Inr res"
    and h: "success res \<longleftrightarrow> (\<exists>m. fst (watch (watcher runner_saving) [text_exists ''OK''] (captures quiet_world)) = Inr (True, m))"
    and p: "\<not> success res \<longrightarrow> screenshot_path res =
           (case save_screenshot_func runner_saving of None \<Rightarrow> None
            | Some save \<Rightarrow> (case save 0 of Inr path \<Rightarrow> path | Inl e \<Rightarrow> None))"
    by blast
  from h w have ns: "\<not> success res" by simp
  with p have "screenshot_path res = Some ''failure.png''"
    by (simp add: runner_saving_def AssertionRunner_init_def)
  moreover have "save_screenshot_func runner_saving = Some (\<lambda>k. Inr (Some ''failure.png''))"
    by (simp add: runner_saving_def AssertionRunner_init_def)
  ultimately show ?thesis using c r ns by blast
qed

text \<open>The claim as first stated fails: on a timeout with a \<open>save_screenshot_func\<close> that raises,
  the exception of the second, unguarded call leaves \<open>run_with_assertion\<close>.\<close>

theorem run_with_assertion_raises_counterexample:
  "fst (run_with_assertion runner_failing_save quiet_world ''tap'' [] 10)
     = Inl (Exception ''device offline'')"
  by (simp add: run_with_assertion_def run_try_def run_except_def runner_failing_save_def
      AssertionRunner_init_def quiet_world_def watch_def stop_agent_def Let_def)

section \<open>What a watch starts from\<close>

text \<open>
  Claim C2, amended. The window is empty and the previous frame absent in a watcher just
  constructed. The start of \<open>watch\<close> sets the running flag only: the window and the previous
  frame are what the call finds, and a watch that polls no tick returns them untouched.
  \<open>run_with_assertion\<close> keeps the runner's one watcher, so they pass to the next call.
\<close>

theorem watch_keeps_window_and_previous_frame:
  "recent_screenshots (AssertionWatcher_init l ocr chk poll frames thr) = []
   \<and> last_screenshot (AssertionWatcher_init l ocr chk poll frames thr) = None
   \<and> recent_screenshots (watch_start w) = recent_screenshots w
   \<and> last_screenshot (watch_start w) = last_screenshot w
   \<and> watch w assertions [] = (Inr (False, None), w\<lparr>running := False\<rparr>)
   \<and> (assertion_objects dicts timeout = Inr objs \<longrightarrow>
        recent_screenshots (watcher (snd (run_with_assertion r env prompt dicts timeout))) =
          recent_screenshots (snd (watch (watcher r) objs (captures env)))
        \<and> last_screenshot (watcher (snd (run_with_assertion r env prompt dicts timeout))) =
          last_screenshot (snd (watch (watcher r) objs (captures env))))"
  by (simp add: AssertionWatcher_init_def watch_start_def watch_def run_with_assertion_watcher
      stop_def)

text \<open>The claim at a runner after a call whose watch ran one tick.\<close>

theorem watch_keeps_window_and_previous_frame_witness:
  "assertion_objects [] 10 = Inr []
   \<and> recent_screenshots (watcher (snd (run_with_assertion runner_saving one_tick_world ''tap'' [] 10))) = [''a'']
   \<and> last_screenshot (watcher (snd (run_with_assertion runner_saving one_tick_world ''tap'' [] 10))) = Some ''a''"
proof -
  have c: "assertion_objects [] 10 = Inr []" by simp
  have w: "snd (watch (watcher runner_saving) [] (captures one_tick_world)) =
     (push_screenshot (watch_start (watcher runner_saving)) ''a'')\<lparr>last_screenshot := Some ''a'', running := False\<rparr>"
    by (simp add: one_tick_world_def watch_def Let_def time_sleep_def push_screenshot_fields)
       (simp add: watch_start_def runner_saving_def AssertionRunner_init_def
          AssertionWatcher_default_def AssertionWatcher_init_def)
  have r: "recent_screenshots (push_screenshot (watch_start (watcher runner_saving)) ''a'') = [''a'']"
    by (simp add: push_screenshot_window watch_start_def runner_saving_def AssertionRunner_init_def
          AssertionWatcher_default_def AssertionWatcher_init_def)
  from watch_keeps_window_and_previous_frame [where dicts = "[]" and timeout = 10 and objs = "[]"
      and r = runner_saving and env = one_tick_world and prompt = "''tap''"] c
  have "recent_screenshots (watcher (snd (run_with_assertion runner_saving one_tick_world ''tap'' [] 10))) =
          recent_screenshots (snd (watch (watcher runner_saving) [] (captures one_tick_world)))
        \<and> last_screenshot (watcher (snd (run_with_assertion runner_saving one_tick_world ''tap'' [] 10))) =
          last_screenshot (snd (watch (watcher runner_saving) [] (captures one_tick_world)))"
    by blast
  with c w r show ?thesis by simp
qed

text \<open>The claim as first stated fails: after a first watch of one tick, the start of a
  second watch on the same watcher finds that frame in the window and as previous frame.\<close>

theorem second_watch_starts_with_old_frames_counterexample:
  "recent_screenshots (watch_start (snd (watch watcher1 [] [Inr ''a'']))) = [''a'']
   \<and> last_screenshot (watch_start (snd (watch watcher1 [] [Inr ''a'']))) = Some ''a''"
  by (simp add: watch_def watch_start_def watcher1_def AssertionWatcher_init_def
      push_screenshot_def time_sleep_def Let_def)

end
